theory Spec2Isabelle
  imports Main
begin

section \<open>Data model (app/database.py)\<close>

text \<open>
  The two tables of the store. A timestamp (\<open>datetime\<close>) is an integer number of
  microseconds since the epoch; the nullable string columns are \<open>string option\<close>.
  The primary key \<open>id\<close> is called \<open>url_id\<close> and \<open>click_id\<close> here,
  and the \<open>short_code\<close> column of a click is \<open>click_code\<close>.
\<close>

record URL =
  url_id :: nat
  original_url :: string
  short_code :: string
  created_at :: int
  click_count :: int
  is_active :: bool
  creator_ip :: "string option"

record Click =
  click_id :: nat
  click_code :: string
  clicked_at :: int
  ip_address :: "string option"
  user_agent :: "string option"
  referer :: "string option"
  country :: "string option"
  city :: "string option"

text \<open>The database session: the rows of both tables, in insertion order.\<close>

record Session =
  urls :: "URL list"
  clicks :: "Click list"

definition empty_db :: Session where
  "empty_db = \<lparr>urls = [], clicks = []\<rparr>"

text \<open>The exceptions the code raises or catches.\<close>

datatype exn =
    ValueError string
  | IntegrityError
  | AttributeError
  | HTTPException nat string
  | RedisError
  | ParseError
  | StoreError
  | PendingRollbackError

text \<open>Python truthiness of an optional string: \<open>None\<close> and \<open>""\<close> are false.\<close>

fun truthy :: "string option \<Rightarrow> bool" where
  "truthy None = False"
| "truthy (Some s) = (s \<noteq> [])"

text \<open>The autoincremented primary key: one more than the largest key in the table.\<close>

definition next_id :: "nat list \<Rightarrow> nat" where
  "next_id ks = Suc (fold max ks 0)"

section \<open>URLService (app/services.py)\<close>

definition characters :: string where
  "characters = ''abcdefghijklmnopqrstuvwxyzABCDEFGHIJKLMNOPQRSTUVWXYZ0123456789''"

text \<open>
  \<open>random.choice\<close> draws from an oracle \<open>rnd\<close>: the \<open>i\<close>-th draw of the process picks
  the element at index \<open>rnd i mod length xs\<close>. The number of draws made so far is threaded
  through as state.
\<close>

definition choice :: "(nat \<Rightarrow> nat) \<Rightarrow> nat \<Rightarrow> 'a list \<Rightarrow> 'a" where
  "choice rnd i xs = xs ! (rnd i mod length xs)"

definition generate_short_code :: "(nat \<Rightarrow> nat) \<Rightarrow> nat \<Rightarrow> nat \<Rightarrow> string \<times> nat" where
  "generate_short_code rnd i len =
     (map (\<lambda>j. choice rnd (i + j) characters) [0..<len], i + len)"

text \<open>\<open>db.query(URL).filter(URL.short_code == code).first()\<close> is truthy.\<close>

definition code_exists :: "Session \<Rightarrow> string \<Rightarrow> bool" where
  "code_exists db code = (find (\<lambda>u. short_code u = code) (urls db) \<noteq> None)"

text \<open>
  The \<open>while True\<close> loop of \<open>create_short_url\<close>: generate a code of the default length 6
  and leave the loop when no row has it. The loop has no other exit, so it is a partial
  function: \<open>None\<close> is the loop that never returns.
\<close>

partial_function (option) generate_unique ::
  "(nat \<Rightarrow> nat) \<Rightarrow> Session \<Rightarrow> nat \<Rightarrow> (string \<times> nat) option" where
  "generate_unique rnd db i =
     (if code_exists db (fst (generate_short_code rnd i 6))
      then generate_unique rnd db (snd (generate_short_code rnd i 6))
      else Some (generate_short_code rnd i 6))"

declare generate_unique.simps [code]

text \<open>
  \<open>db.add(url_obj); db.commit(); db.refresh(url_obj)\<close>: the column \<open>short_code\<close> is
  declared \<open>unique=True\<close>, so the commit raises when the code is already in the table;
  otherwise the row is appended with the column defaults.
\<close>

definition add_url ::
  "Session \<Rightarrow> string \<Rightarrow> string \<Rightarrow> string option \<Rightarrow> int \<Rightarrow> (exn + URL) \<times> Session" where
  "add_url db original code ip now =
     (if code_exists db code then (Inl IntegrityError, db)
      else
        let url_obj = \<lparr>url_id = next_id (map url_id (urls db)), original_url = original,
                       short_code = code, created_at = now, click_count = 0,
                       is_active = True, creator_ip = ip\<rparr>
        in (Inr url_obj, db\<lparr>urls := urls db @ [url_obj]\<rparr>))"

text \<open>
  \<open>create_short_url\<close>. \<open>validators.url\<close> is a library predicate, taken as the parameter
  \<open>valid_url\<close>. The result is \<open>None\<close> when the generation loop does not return; otherwise
  the raised exception or the new row, the session, and the number of random draws made.
\<close>

definition create_short_url ::
  "(string \<Rightarrow> bool) \<Rightarrow> (nat \<Rightarrow> nat) \<Rightarrow> nat \<Rightarrow> Session \<Rightarrow> string \<Rightarrow> string option
     \<Rightarrow> string option \<Rightarrow> int \<Rightarrow> ((exn + URL) \<times> Session \<times> nat) option" where
  "create_short_url valid_url rnd i db original custom_code ip now =
     (if \<not> valid_url original then Some (Inl (ValueError ''Invalid URL format''), db, i)
      else if truthy custom_code then
        (if code_exists db (the custom_code)
         then Some (Inl (ValueError ''Custom code already exists''), db, i)
         else Some (fst (add_url db original (the custom_code) ip now),
                    snd (add_url db original (the custom_code) ip now), i))
      else
        (case generate_unique rnd db i of
           None \<Rightarrow> None
         | Some (code, i') \<Rightarrow>
             Some (fst (add_url db original code ip now),
                   snd (add_url db original code ip now), i')))"

text \<open>\<open>get_url_by_code\<close>: the first row with this code and \<open>is_active == True\<close>.\<close>

definition get_url_by_code :: "Session \<Rightarrow> string \<Rightarrow> URL option" where
  "get_url_by_code db code = find (\<lambda>u. short_code u = code \<and> is_active u) (urls db)"

text \<open>
  \<open>increment_click_count\<close>: the first row with this code, active or not, gets its counter
  incremented; no row, no change.
\<close>

fun bump_first :: "string \<Rightarrow> URL list \<Rightarrow> URL list" where
  "bump_first code [] = []"
| "bump_first code (u # us) =
     (if short_code u = code then u\<lparr>click_count := click_count u + 1\<rparr> # us
      else u # bump_first code us)"

definition increment_click_count :: "Session \<Rightarrow> string \<Rightarrow> Session" where
  "increment_click_count db code = db\<lparr>urls := bump_first code (urls db)\<rparr>"

section \<open>AnalyticsService (app/services.py)\<close>

text \<open>
  What can go wrong inside \<open>track_click\<close>: the user-agent parser raises, the commit of
  the click row raises, or the commit of the counter increment raises. The environment
  chooses; \<open>NoFault\<close> is the run in which every step succeeds.
\<close>

datatype fault = NoFault | ParseFails | ClickCommitFails | IncrementCommitFails

text \<open>
  The row \<open>Click(...)\<close> that \<open>track_click\<close> builds. \<open>user_agents.parse\<close> is a library
  function, taken as the parameter \<open>parse_ua\<close>, which gives the browser family and its
  version string; the stored user agent is \<open>f"{family} {version}"\<close>.
\<close>

definition new_click ::
  "(string \<Rightarrow> string \<times> string) \<Rightarrow> Session \<Rightarrow> string \<Rightarrow> string \<Rightarrow> string \<Rightarrow> string option
     \<Rightarrow> int \<Rightarrow> Click" where
  "new_click parse_ua db code ip ua ref now =
     \<lparr>click_id = next_id (map click_id (clicks db)), click_code = code, clicked_at = now,
      ip_address = Some ip,
      user_agent = Some (fst (parse_ua ua) @ '' '' @ snd (parse_ua ua)),
      referer = ref, country = Some ''Unknown'', city = Some ''Unknown''\<rparr>"

text \<open>
  \<open>track_click\<close>: parse, add and commit the click, then increment the counter of the
  URL. A commit that raises leaves the table as it was.
\<close>

definition track_click ::
  "(string \<Rightarrow> string \<times> string) \<Rightarrow> fault \<Rightarrow> Session \<Rightarrow> string \<Rightarrow> string \<Rightarrow> string
     \<Rightarrow> string option \<Rightarrow> int \<Rightarrow> (exn + unit) \<times> Session" where
  "track_click parse_ua flt db code ip ua ref now =
     (if flt = ParseFails then (Inl ParseError, db)
      else if flt = ClickCommitFails then (Inl StoreError, db)
      else if flt = IncrementCommitFails
        then (Inl StoreError,
              db\<lparr>clicks := clicks db @ [new_click parse_ua db code ip ua ref now]\<rparr>)
        else (Inr (),
              increment_click_count
                (db\<lparr>clicks := clicks db @ [new_click parse_ua db code ip ua ref now]\<rparr>) code))"

text \<open>
  \<open>collections.Counter\<close>: a dictionary from value to count that keeps its keys in the
  order of first insertion, here an association list.
\<close>

fun counter_add :: "'a \<Rightarrow> ('a \<times> nat) list \<Rightarrow> ('a \<times> nat) list" where
  "counter_add x [] = [(x, 1)]"
| "counter_add x (kv # kvs) =
     (if fst kv = x then (fst kv, Suc (snd kv)) # kvs else kv # counter_add x kvs)"

definition Counter :: "'a list \<Rightarrow> ('a \<times> nat) list" where
  "Counter xs = fold counter_add xs []"

text \<open>
  \<open>most_common(n)\<close> is \<open>sorted(items, key=count, reverse=True)[:n]\<close>: a stable sort by
  descending count, cut after \<open>n\<close> entries.
\<close>

definition most_common :: "nat \<Rightarrow> ('a \<times> nat) list \<Rightarrow> ('a \<times> nat) list" where
  "most_common n c = take n (sort_key (\<lambda>kv. - int (snd kv)) c)"

text \<open>\<open>[click.f for click in clicks if click.f]\<close>: the non-empty values of a column.\<close>

definition column :: "(Click \<Rightarrow> string option) \<Rightarrow> Click list \<Rightarrow> string list" where
  "column f cs = map (\<lambda>c. the (f c)) (filter (\<lambda>c. truthy (f c)) cs)"

record AnalyticsSummary =
  total_clicks :: nat
  unique_ips :: nat
  top_countries :: "(string \<times> nat) list"
  top_referrers :: "(string \<times> nat) list"
  click_history :: "(int \<times> nat) list"
  browser_stats :: "(string \<times> nat) list"

definition day_us :: int where
  "day_us = 86400 * 1000000"

text \<open>
  \<open>get_analytics\<close>. The key of the click history is the calendar day of
  \<open>clicked_at\<close>, here the number of the day since the epoch; \<open>now\<close> is
  \<open>datetime.utcnow()\<close>.
\<close>

definition get_analytics :: "Session \<Rightarrow> string \<Rightarrow> int \<Rightarrow> AnalyticsSummary" where
  "get_analytics db code now =
     (let cs = filter (\<lambda>c. click_code c = code) (clicks db) in
      if cs = [] then
        \<lparr>total_clicks = 0, unique_ips = 0, top_countries = [], top_referrers = [],
         click_history = [], browser_stats = []\<rparr>
      else
        let recent_clicks = filter (\<lambda>c. clicked_at c \<ge> now - 30 * day_us) cs in
        \<lparr>total_clicks = length cs,
         unique_ips = length (remdups (column ip_address cs)),
         top_countries = most_common 5 (Counter (column country cs)),
         top_referrers = most_common 5 (Counter (column referer cs)),
         click_history =
           sort_key fst (Counter (map (\<lambda>c. clicked_at c div day_us) recent_clicks)),
         browser_stats = most_common 5 (Counter (column user_agent cs))\<rparr>)"

section \<open>The endpoints (app/main.py)\<close>

text \<open>
  What the handlers read of a request: \<open>request.client\<close> (which may be \<open>None\<close>) and the
  two headers.
\<close>

record Request =
  client_host :: "string option"
  header_user_agent :: "string option"
  header_referer :: "string option"

datatype response = RedirectResponse string nat

definition not_found :: exn where
  "not_found = HTTPException 404 ''Short URL not found''"

text \<open>
  \<open>GET /{short_code}\<close>. Everything raised inside the \<open>try\<close> block, the read of
  \<open>request.client.host\<close> included, is caught by \<open>except Exception: pass\<close>. The response is
  built after the block, from \<open>url_obj.original_url\<close>, on the session that \<open>track_click\<close>
  committed on. A commit that raised (\<open>StoreError\<close>) has left that session rolled back
  with its rows expired, and the handler issues no \<open>rollback()\<close>, so the read raises
  \<open>PendingRollbackError\<close>, which nothing catches. A parser failure or a missing client
  happens before the session is touched and the read succeeds.
\<close>

definition redirect_url ::
  "(string \<Rightarrow> string \<times> string) \<Rightarrow> fault \<Rightarrow> Session \<Rightarrow> string \<Rightarrow> Request \<Rightarrow> int
     \<Rightarrow> (exn + response) \<times> Session" where
  "redirect_url parse_ua flt db code request now =
     (case get_url_by_code db code of
        None \<Rightarrow> (Inl not_found, db)
      | Some url_obj \<Rightarrow>
          (case client_host request of
             None \<Rightarrow> (Inr (RedirectResponse (original_url url_obj) 302), db)
           | Some ip \<Rightarrow>
               let tracked = track_click parse_ua flt db code ip
                               (case header_user_agent request of None \<Rightarrow> [] | Some ua \<Rightarrow> ua)
                               (header_referer request) now
               in if fst tracked = Inl StoreError
                  then (Inl PendingRollbackError, snd tracked)
                  else (Inr (RedirectResponse (original_url url_obj) 302), snd tracked)))"

text \<open>\<open>GET /api/analytics/{short_code}\<close>, the handler \<open>get_analytics\<close> of main.py.\<close>

definition get_analytics_endpoint :: "Session \<Rightarrow> string \<Rightarrow> int \<Rightarrow> exn + AnalyticsSummary" where
  "get_analytics_endpoint db code now =
     (case get_url_by_code db code of
        None \<Rightarrow> Inl not_found
      | Some url_obj \<Rightarrow> Inr (get_analytics db code now))"

section \<open>RateLimiter (app/middleware.py)\<close>

text \<open>\<open>str\<close> of an integer, for the messages.\<close>

fun str_nat :: "nat \<Rightarrow> string" where
  "str_nat n =
     (if n < 10 then [''0123456789'' ! n]
      else str_nat (n div 10) @ [''0123456789'' ! (n mod 10)])"

declare str_nat.simps [simp del]

definition str_int :: "int \<Rightarrow> string" where
  "str_int i = (if i < 0 then CHR ''-'' # str_nat (nat (- i)) else str_nat (nat i))"

text \<open>
  The limiter object. An attribute that \<open>__init__\<close> did not set is \<open>None\<close> in
  \<open>memory_store\<close>; the store itself maps a client to its list of request times.
\<close>

record RateLimiter =
  redis_client :: "string option"
  redis_available :: bool
  memory_store :: "(string \<rightharpoonup> int list) option"

text \<open>
  \<open>__init__\<close>: \<open>from_url_raises\<close> says whether \<open>redis.from_url\<close> raised. The
  in-memory store is created in the \<open>except\<close> branch only.
\<close>

definition init :: "string \<Rightarrow> bool \<Rightarrow> RateLimiter" where
  "init redis_url from_url_raises =
     (if from_url_raises
      then \<lparr>redis_client = None, redis_available = False, memory_store = Some Map.empty\<rparr>
      else \<lparr>redis_client = Some redis_url, redis_available = True, memory_store = None\<rparr>)"

definition too_many_per_minute :: "int \<Rightarrow> exn" where
  "too_many_per_minute max_requests =
     HTTPException 429
       (''Rate limit exceeded. Max '' @ str_int max_requests @ '' requests per minute.'')"

text \<open>
  \<open>_check_memory_rate_limit\<close>. Reading \<open>self.memory_store\<close> raises
  \<open>AttributeError\<close> when the attribute was never set. The store is updated before the
  length is compared, so the update stays when the exception is raised.
\<close>

definition check_memory_rate_limit ::
  "RateLimiter \<Rightarrow> string \<Rightarrow> int \<Rightarrow> int \<Rightarrow> int \<Rightarrow> (exn + unit) \<times> RateLimiter" where
  "check_memory_rate_limit self client_ip current_time window_start max_requests =
     (case memory_store self of
        None \<Rightarrow> (Inl AttributeError, self)
      | Some store \<Rightarrow>
          let old = (case store client_ip of None \<Rightarrow> [] | Some ts \<Rightarrow> ts);
              requests = filter (\<lambda>req_time. req_time > window_start) old @ [current_time];
              self' = self\<lparr>memory_store := Some (store(client_ip \<mapsto> requests))\<rparr>
          in if int (length requests) > max_requests
             then (Inl (too_many_per_minute max_requests), self')
             else (Inr (), self'))"

text \<open>
  The outcome of the Redis pipeline (\<open>pipe.execute()\<close>), chosen by the environment: it
  raises, or it returns its results, of which the code reads \<open>results[2]\<close>, the
  cardinality of the client's sorted set.
\<close>

datatype redis_reply = Raises exn | Results int

definition too_many :: "int \<Rightarrow> int \<Rightarrow> exn" where
  "too_many max_requests window_seconds =
     HTTPException 429
       (''Rate limit exceeded. Max '' @ str_int max_requests @ '' requests per ''
          @ str_int window_seconds @ '' seconds.'')"

text \<open>
  \<open>check_rate_limit\<close>: \<open>current_time\<close> is \<open>int(time.time())\<close>. Only
  \<open>redis.RedisError\<close> is caught; any other exception of the pipeline, and the 429 raised
  inside the \<open>try\<close> block, leave the function.
\<close>

definition check_rate_limit ::
  "RateLimiter \<Rightarrow> redis_reply \<Rightarrow> Request \<Rightarrow> int \<Rightarrow> int \<Rightarrow> int \<Rightarrow> (exn + unit) \<times> RateLimiter" where
  "check_rate_limit self reply request current_time max_requests window_seconds =
     (case client_host request of
        None \<Rightarrow> (Inl AttributeError, self)
      | Some client_ip \<Rightarrow>
          let window_start = current_time - window_seconds in
          if redis_available self \<and> redis_client self \<noteq> None then
            (case reply of
               Results request_count \<Rightarrow>
                 if request_count > max_requests
                 then (Inl (too_many max_requests window_seconds), self)
                 else (Inr (), self)
             | Raises e \<Rightarrow>
                 if e = RedisError
                 then check_memory_rate_limit self client_ip current_time window_start max_requests
                 else (Inl e, self))
          else check_memory_rate_limit self client_ip current_time window_start max_requests)"

section \<open>Runs of the service\<close>

text \<open>
  A sequence of \<open>create\<close> calls, each with its URL, optional custom code, creator address
  and time. A call that raises leaves the session as it was and the next call follows;
  the run is \<open>None\<close> when a call does not return.
\<close>

fun create_all ::
  "(string \<Rightarrow> bool) \<Rightarrow> (nat \<Rightarrow> nat) \<Rightarrow> nat \<Rightarrow> Session
     \<Rightarrow> (string \<times> string option \<times> string option \<times> int) list \<Rightarrow> (Session \<times> nat) option" where
  "create_all valid_url rnd i db [] = Some (db, i)"
| "create_all valid_url rnd i db (rq # rqs) =
     (case create_short_url valid_url rnd i db (fst rq) (fst (snd rq)) (fst (snd (snd rq)))
             (snd (snd (snd rq))) of
        None \<Rightarrow> None
      | Some res \<Rightarrow> create_all valid_url rnd (snd (snd res)) (fst (snd res)) rqs)"

text \<open>
  A sequence of redirect requests against one code, each with the fault the environment
  injects, the request and the time.
\<close>

fun redirect_all ::
  "(string \<Rightarrow> string \<times> string) \<Rightarrow> Session \<Rightarrow> string \<Rightarrow> (fault \<times> Request \<times> int) list
     \<Rightarrow> Session" where
  "redirect_all parse_ua db code [] = db"
| "redirect_all parse_ua db code (st # sts) =
     redirect_all parse_ua
       (snd (redirect_url parse_ua (fst st) db code (fst (snd st)) (snd (snd st)))) code sts"

text \<open>A redirect in which the click is recorded: the client is known and nothing fails.\<close>

definition recorded :: "fault \<times> Request \<times> int \<Rightarrow> bool" where
  "recorded st = (fst st = NoFault \<and> client_host (fst (snd st)) \<noteq> None)"

text \<open>
  The states of the store that the service reaches from the empty database: by a
  \<open>create\<close>, by a redirect (with any fault), and by a soft delete of a code, which no
  endpoint performs but an operator may.
\<close>

inductive reachable :: "Session \<Rightarrow> bool" where
  start: "reachable empty_db"
| created:
    "reachable db \<Longrightarrow>
     create_short_url valid_url rnd i db original custom_code ip now = Some (r, db', i') \<Longrightarrow>
     reachable db'"
| redirected:
    "reachable db \<Longrightarrow> redirect_url parse_ua flt db code request now = (r', db') \<Longrightarrow>
     reachable db'"
| deactivated:
    "reachable db \<Longrightarrow>
     reachable (db\<lparr>urls := map (\<lambda>u. if short_code u = code then u\<lparr>is_active := False\<rparr> else u)
                               (urls db)\<rparr>)"

text \<open>Every stored click carries the code of a stored URL.\<close>

definition orphan_free :: "Session \<Rightarrow> bool" where
  "orphan_free db = list_all (\<lambda>c. code_exists db (click_code c)) (clicks db)"

text \<open>
  A sequence of admission checks of one client at the given times, every call with the
  same limit and window; the outcomes in order, and the limiter afterwards.
\<close>

fun check_all ::
  "RateLimiter \<Rightarrow> redis_reply \<Rightarrow> Request \<Rightarrow> int \<Rightarrow> int \<Rightarrow> int list
     \<Rightarrow> (exn + unit) list \<times> RateLimiter" where
  "check_all self reply request max_requests window_seconds [] = ([], self)"
| "check_all self reply request max_requests window_seconds (t # ts) =
     (fst (check_rate_limit self reply request t max_requests window_seconds)
        # fst (check_all (snd (check_rate_limit self reply request t max_requests window_seconds))
                 reply request max_requests window_seconds ts),
      snd (check_all (snd (check_rate_limit self reply request t max_requests window_seconds))
             reply request max_requests window_seconds ts))"

text \<open>The request times the limiter holds for a client (none when it has no store).\<close>

definition stored :: "RateLimiter \<Rightarrow> string \<Rightarrow> int list" where
  "stored self client_ip =
     (case memory_store self of
        None \<Rightarrow> []
      | Some store \<Rightarrow> (case store client_ip of None \<Rightarrow> [] | Some ts \<Rightarrow> ts))"

text \<open>
  The limiter decides in memory: the Redis branch is not taken and the store exists.
\<close>

definition memory_mode :: "RateLimiter \<Rightarrow> bool" where
  "memory_mode self =
     (\<not> (redis_available self \<and> redis_client self \<noteq> None) \<and> memory_store self \<noteq> None)"

text \<open>
  The outcome of the in-memory check when the client's list has \<open>n\<close> entries after the
  append: the 429 when \<open>n > max_requests\<close>, a normal return otherwise.
\<close>

definition verdict :: "int \<Rightarrow> nat \<Rightarrow> exn + unit" where
  "verdict max_requests n =
     (if int n > max_requests then Inl (too_many_per_minute max_requests) else Inr ())"

section \<open>Vocabulary of the top-five lists\<close>

text \<open>The position at which a value is first met in a list.\<close>

definition first_index :: "'a list \<Rightarrow> 'a \<Rightarrow> nat" where
  "first_index xs x = length (takeWhile (\<lambda>y. y \<noteq> x) xs)"

text \<open>The distinct values of a list, in the order in which they are first met.\<close>

definition firsts :: "'a list \<Rightarrow> 'a list" where
  "firsts xs = rev (remdups (rev xs))"

text \<open>
  \<open>a\<close> ranks before \<open>b\<close> among the values \<open>xs\<close>: it is more frequent, or as frequent and
  met first.
\<close>

definition ranks_before :: "'a list \<Rightarrow> 'a \<Rightarrow> 'a \<Rightarrow> bool" where
  "ranks_before xs a b =
     (count_list xs a > count_list xs b
      \<or> (count_list xs a = count_list xs b \<and> first_index xs a < first_index xs b))"

text \<open>
  \<open>res\<close> is the list of the (at most) \<open>n\<close> first values of \<open>xs\<close> in that ranking, each with
  its frequency: as many entries as there are distinct values, up to \<open>n\<close>; every entry a
  value of \<open>xs\<close> with its number of occurrences; the entries in ranking order; and every
  value left out ranked after every entry.
\<close>

definition is_top :: "nat \<Rightarrow> 'a list \<Rightarrow> ('a \<times> nat) list \<Rightarrow> bool" where
  "is_top n xs res =
     (length res = min n (length (remdups xs))
      \<and> list_all (\<lambda>kv. fst kv \<in> set xs \<and> snd kv = count_list xs (fst kv)) res
      \<and> sorted_wrt (\<lambda>kv kv'. ranks_before xs (fst kv) (fst kv')) res
      \<and> list_all (\<lambda>x. x \<in> fst ` set res
                        \<or> list_all (\<lambda>kv. ranks_before xs (fst kv) x) res) xs)"

section \<open>Concrete inputs\<close>

definition demo_valid :: "string \<Rightarrow> bool" where
  "demo_valid s = (take 8 s = ''https://'')"

definition demo_rnd :: "nat \<Rightarrow> nat" where
  "demo_rnd n = n"

definition stuck_rnd :: "nat \<Rightarrow> nat" where
  "stuck_rnd n = 0"

definition demo_parse_ua :: "string \<Rightarrow> string \<times> string" where
  "demo_parse_ua ua = (ua, ''1.0'')"

definition demo_request :: Request where
  "demo_request = \<lparr>client_host = Some ''10.0.0.1'', header_user_agent = Some ''Firefox'',
                    header_referer = None\<rparr>"

definition demo_url :: "string \<Rightarrow> bool \<Rightarrow> URL" where
  "demo_url code active =
     \<lparr>url_id = 1, original_url = ''https://example.com'', short_code = code, created_at = 0,
      click_count = 0, is_active = active, creator_ip = None\<rparr>"

definition demo_click :: "string \<Rightarrow> string option \<Rightarrow> Click" where
  "demo_click code c =
     \<lparr>click_id = 1, click_code = code, clicked_at = 0, ip_address = Some ''10.0.0.1'',
      user_agent = Some ''Firefox 1.0'', referer = None, country = c, city = Some ''Unknown''\<rparr>"

definition demo_db :: Session where
  "demo_db = \<lparr>urls = [demo_url ''abcdef'' False], clicks = []\<rparr>"

definition stuck_db :: Session where
  "stuck_db = \<lparr>urls = [demo_url ''aaaaaa'' True], clicks = []\<rparr>"

definition demo_creates :: "(string \<times> string option \<times> string option \<times> int) list" where
  "demo_creates =
     [(''https://github.com'', Some ''github'', None, 1),
      (''https://example2.com'', Some ''github'', None, 2),
      (''https://python.org'', None, Some ''10.0.0.1'', 3),
      (''https://example.com'', Some ''abcdef'', None, 4),
      (''not-a-valid-url'', None, None, 5)]"

definition demo_steps :: "(fault \<times> Request \<times> int) list" where
  "demo_steps = [(NoFault, demo_request, 10), (NoFault, demo_request, 20), (NoFault, demo_request, 30)]"

definition demo_clicks_db :: Session where
  "demo_clicks_db =
     \<lparr>urls = [demo_url ''abc'' True],
      clicks = map (demo_click ''abc'')
        [Some ''DE'', Some ''FR'', Some ''FR'', None, Some ''US'', Some ''DE'', Some [],
         Some ''IT'', Some ''ES'', Some ''PL'']\<rparr>"

section \<open>Lookup and redirect\<close>

lemma get_url_by_code_Some:
  "get_url_by_code db code = Some u \<Longrightarrow> u \<in> set (urls db) \<and> short_code u = code \<and> is_active u"
  unfolding get_url_by_code_def by (induction "urls db" arbitrary: db) (auto simp: find_Some_iff)

lemma get_url_by_code_None:
  "(get_url_by_code db code = None) = (\<forall>u\<in>set (urls db). short_code u = code \<longrightarrow> \<not> is_active u)"
  unfolding get_url_by_code_def by (auto simp: find_None_iff)

lemma find_unique:
  assumes "distinct (map f xs)" "x \<in> set xs" "P x" "\<And>y. P y \<Longrightarrow> f y = f x"
  shows "find P xs = Some x"
  using assms(1,2)
proof (induction xs)
  case Nil
  then show ?case by simp
next
  case (Cons a xs)
  show ?case
  proof (cases "P a")
    case True
    then have fa: "f a = f x" by (rule assms(4))
    have "a = x"
    proof (rule ccontr)
      assume "a \<noteq> x"
      then have "x \<in> set xs" using Cons.prems(2) by simp
      then have "f x \<in> f ` set xs" by (rule imageI)
      then show False using fa Cons.prems(1) by simp
    qed
    with True show ?thesis by simp
  next
    case False
    then have "x \<noteq> a" using assms(3) by blast
    then have "x \<in> set xs" using Cons.prems(2) by simp
    moreover have "distinct (map f xs)" using Cons.prems(1) by simp
    ultimately have "find P xs = Some x" by (rule Cons.IH[rotated])
    with False show ?thesis by simp
  qed
qed

lemma snd_redirect_url:
  "snd (redirect_url parse_ua flt db code request now)
     = (case get_url_by_code db code of
          None \<Rightarrow> db
        | Some url_obj \<Rightarrow>
            (case client_host request of
               None \<Rightarrow> db
             | Some ip \<Rightarrow>
                 snd (track_click parse_ua flt db code ip
                        (case header_user_agent request of None \<Rightarrow> [] | Some ua \<Rightarrow> ua)
                        (header_referer request) now)))"
  by (simp add: redirect_url_def Let_def split: option.splits)

lemma track_click_raises:
  "flt \<noteq> NoFault \<Longrightarrow> \<exists>e. fst (track_click parse_ua flt db code ip ua ref now) = Inl e"
  by (cases flt) (simp_all add: track_click_def Let_def)

text \<open>
  Claim C3. The lookup returns a row only if that row is in the table, has the code and
  is active; where codes are unique it returns exactly the active row with the code; and
  when no row with the code is active (the code is absent, or its row is deactivated), the
  lookup is \<open>None\<close> and the redirect raises the same 404 and leaves the store alone, so
  the caller cannot tell the two cases apart.
\<close>

theorem lookup_active_only:
  "(get_url_by_code db code = Some u \<longrightarrow>
      u \<in> set (urls db) \<and> short_code u = code \<and> is_active u)
   \<and> (distinct (map short_code (urls db)) \<and> u \<in> set (urls db) \<and> short_code u = code
        \<and> is_active u \<longrightarrow> get_url_by_code db code = Some u)
   \<and> ((\<forall>v\<in>set (urls db). short_code v = code \<longrightarrow> \<not> is_active v) \<longrightarrow>
        get_url_by_code db code = None
        \<and> redirect_url parse_ua flt db code request now = (Inl not_found, db))"
proof -
  have 1: "get_url_by_code db code = Some u \<longrightarrow>
      u \<in> set (urls db) \<and> short_code u = code \<and> is_active u"
    using get_url_by_code_Some by blast
  have 2: "distinct (map short_code (urls db)) \<and> u \<in> set (urls db) \<and> short_code u = code
        \<and> is_active u \<longrightarrow> get_url_by_code db code = Some u"
    unfolding get_url_by_code_def
    by (auto intro!: find_unique [where f = short_code])
  have 3: "(\<forall>v\<in>set (urls db). short_code v = code \<longrightarrow> \<not> is_active v) \<longrightarrow>
        get_url_by_code db code = None
        \<and> redirect_url parse_ua flt db code request now = (Inl not_found, db)"
  proof
    assume "\<forall>v\<in>set (urls db). short_code v = code \<longrightarrow> \<not> is_active v"
    then have "get_url_by_code db code = None"
      by (simp add: get_url_by_code_None)
    then show "get_url_by_code db code = None
        \<and> redirect_url parse_ua flt db code request now = (Inl not_found, db)"
      by (simp add: redirect_url_def)
  qed
  from 1 2 3 show ?thesis by blast
qed

theorem lookup_active_only_witness:
  "get_url_by_code \<lparr>urls = [demo_url ''abc'' True], clicks = []\<rparr> ''abc'' = Some (demo_url ''abc'' True)
   \<and> get_url_by_code \<lparr>urls = [demo_url ''abc'' False], clicks = []\<rparr> ''abc'' = None
   \<and> get_url_by_code empty_db ''abc'' = None
   \<and> fst (redirect_url demo_parse_ua NoFault \<lparr>urls = [demo_url ''abc'' False], clicks = []\<rparr> ''abc''
        demo_request 0) = Inl not_found
   \<and> fst (redirect_url demo_parse_ua NoFault empty_db ''abc'' demo_request 0) = Inl not_found"
  using lookup_active_only [of "\<lparr>urls = [demo_url ''abc'' True], clicks = []\<rparr>" "''abc''"
          "demo_url ''abc'' True"]
        lookup_active_only [of "\<lparr>urls = [demo_url ''abc'' False], clicks = []\<rparr>" "''abc''" _
          demo_parse_ua NoFault demo_request 0]
        lookup_active_only [of empty_db "''abc''" _ demo_parse_ua NoFault demo_request 0]
  by (simp add: demo_url_def empty_db_def)

lemma redirect_without_commit_failure:
  "get_url_by_code db code = Some url_obj \<Longrightarrow>
   client_host request = None \<or> flt = NoFault \<or> flt = ParseFails \<Longrightarrow>
   fst (redirect_url parse_ua flt db code request now)
     = Inr (RedirectResponse (original_url url_obj) 302)"
  by (cases "client_host request") (auto simp: redirect_url_def track_click_def Let_def)

text \<open>
  Claim C4, evaluated on the code. When the lookup succeeds, the client is known and a
  commit inside the click recording raises (the commit of the click row, or the commit of
  the counter increment), \<open>track_click\<close> raises the store error, the handler swallows it,
  and the read of the original URL that follows raises \<open>PendingRollbackError\<close>: the caller
  gets an error and not the 302.
\<close>

theorem redirect_raises_after_failed_commit:
  assumes "get_url_by_code db code = Some url_obj" and "client_host request = Some ip"
    and "flt = ClickCommitFails \<or> flt = IncrementCommitFails"
  shows "fst (track_click parse_ua flt db code ip
                (case header_user_agent request of None \<Rightarrow> [] | Some ua \<Rightarrow> ua)
                (header_referer request) now) = Inl StoreError
         \<and> fst (redirect_url parse_ua flt db code request now) = Inl PendingRollbackError"
proof -
  have t: "fst (track_click parse_ua flt db code ip
                (case header_user_agent request of None \<Rightarrow> [] | Some ua \<Rightarrow> ua)
                (header_referer request) now) = Inl StoreError"
    using assms(3) by (auto simp: track_click_def)
  then have "fst (redirect_url parse_ua flt db code request now) = Inl PendingRollbackError"
    using assms(1,2) by (simp add: redirect_url_def Let_def)
  with t show ?thesis by simp
qed

theorem redirect_raises_after_failed_commit_witness:
  "get_url_by_code \<lparr>urls = [demo_url ''abc'' True], clicks = []\<rparr> ''abc'' = Some (demo_url ''abc'' True)
   \<and> client_host demo_request = Some ''10.0.0.1''
   \<and> fst (track_click demo_parse_ua ClickCommitFails \<lparr>urls = [demo_url ''abc'' True], clicks = []\<rparr>
        ''abc'' ''10.0.0.1'' ''Firefox'' None 0) = Inl StoreError
   \<and> fst (redirect_url demo_parse_ua ClickCommitFails \<lparr>urls = [demo_url ''abc'' True], clicks = []\<rparr>
        ''abc'' demo_request 0) = Inl PendingRollbackError"
proof -
  have h: "get_url_by_code \<lparr>urls = [demo_url ''abc'' True], clicks = []\<rparr> ''abc''
             = Some (demo_url ''abc'' True)"
    by (simp add: get_url_by_code_def demo_url_def)
  have c: "client_host demo_request = Some ''10.0.0.1''"
    by (simp add: demo_request_def)
  have f: "ClickCommitFails = ClickCommitFails \<or> ClickCommitFails = IncrementCommitFails"
    by simp
  from redirect_raises_after_failed_commit [OF h c f, of demo_parse_ua 0]
  show ?thesis using h c by (simp add: demo_request_def)
qed

section \<open>The analytics endpoint\<close>

text \<open>
  Claim C10. The analytics endpoint raises 404 whenever no row with the code is active:
  when there is no row, and when the row is deactivated, whatever clicks are stored for
  the code.
\<close>

theorem analytics_404_for_inactive:
  "\<forall>u\<in>set (urls db). short_code u = code \<longrightarrow> \<not> is_active u \<Longrightarrow>
   get_analytics_endpoint db code now = Inl not_found"
  by (simp add: get_analytics_endpoint_def get_url_by_code_None[symmetric])

theorem analytics_404_for_inactive_witness:
  "total_clicks (get_analytics \<lparr>urls = [demo_url ''abc'' False],
        clicks = [demo_click ''abc'' None, demo_click ''abc'' None]\<rparr> ''abc'' 0) = 2
   \<and> get_analytics_endpoint \<lparr>urls = [demo_url ''abc'' False],
        clicks = [demo_click ''abc'' None, demo_click ''abc'' None]\<rparr> ''abc'' 0 = Inl not_found
   \<and> get_analytics_endpoint \<lparr>urls = [],
        clicks = [demo_click ''abc'' None, demo_click ''abc'' None]\<rparr> ''abc'' 0 = Inl not_found"
proof -
  have 1: "total_clicks (get_analytics \<lparr>urls = [demo_url ''abc'' False],
        clicks = [demo_click ''abc'' None, demo_click ''abc'' None]\<rparr> ''abc'' 0) = 2"
    by code_simp
  have 2: "\<forall>u\<in>set (urls \<lparr>urls = [demo_url ''abc'' False],
        clicks = [demo_click ''abc'' None, demo_click ''abc'' None]\<rparr>).
        short_code u = ''abc'' \<longrightarrow> \<not> is_active u"
    by (simp add: demo_url_def)
  have 3: "\<forall>u\<in>set (urls \<lparr>urls = [],
        clicks = [demo_click ''abc'' None, demo_click ''abc'' None]\<rparr>).
        short_code u = ''abc'' \<longrightarrow> \<not> is_active u"
    by simp
  show ?thesis
    using 1 analytics_404_for_inactive [OF 2] analytics_404_for_inactive [OF 3] by blast
qed

section \<open>The rate limiter's fallback\<close>

text \<open>
  Claim C8, evaluated on the code. A limiter whose \<open>__init__\<close> reached Redis has no
  \<open>memory_store\<close>; when the pipeline then raises \<open>RedisError\<close>, the fallback reads the
  missing attribute and the caller gets \<open>AttributeError\<close>.
\<close>

theorem redis_failure_surfaces_attribute_error:
  "check_rate_limit (init redis_url False) (Raises RedisError)
     \<lparr>client_host = Some client_ip, header_user_agent = ua, header_referer = ref\<rparr>
     current_time max_requests window_seconds
   = (Inl AttributeError, init redis_url False)"
  by (simp add: check_rate_limit_def init_def check_memory_rate_limit_def)

section \<open>Creating short URLs\<close>

lemma code_exists_iff: "code_exists db code = (code \<in> short_code ` set (urls db))"
  unfolding code_exists_def by (auto simp: find_None_iff)

lemma add_url_fresh:
  "\<not> code_exists db code \<Longrightarrow>
   \<exists>u. add_url db original code ip now = (Inr u, db\<lparr>urls := urls db @ [u]\<rparr>)
       \<and> short_code u = code \<and> original_url u = original \<and> click_count u = 0 \<and> is_active u"
  by (simp add: add_url_def Let_def)

lemma add_url_urls:
  "urls (snd (add_url db original code ip now)) = urls db
   \<or> (\<not> code_exists db code \<and> (\<exists>u. short_code u = code
         \<and> urls (snd (add_url db original code ip now)) = urls db @ [u]))"
  by (simp add: add_url_def Let_def)

lemma add_url_clicks: "clicks (snd (add_url db original code ip now)) = clicks db"
  by (simp add: add_url_def Let_def)

lemma generate_unique_result:
  assumes "generate_unique rnd db i = Some r"
  shows "\<not> code_exists db (fst r) \<and> i < snd r"
  using assms
proof (rule generate_unique.raw_induct
    [where P = "\<lambda>rnd db i r. \<not> code_exists db (fst r) \<and> i < snd r", rotated])
  fix gu rnd' db' i' r'
  assume IH: "\<And>rnd db i r. gu rnd db i = Some r \<Longrightarrow> \<not> code_exists db (fst r) \<and> i < snd r"
    and eq: "(if code_exists db' (fst (generate_short_code rnd' i' 6))
              then gu rnd' db' (snd (generate_short_code rnd' i' 6))
              else Some (generate_short_code rnd' i' 6)) = Some r'"
  show "\<not> code_exists db' (fst r') \<and> i' < snd r'"
  proof (cases "code_exists db' (fst (generate_short_code rnd' i' 6))")
    case True
    with eq have "gu rnd' db' (snd (generate_short_code rnd' i' 6)) = Some r'" by simp
    from IH [OF this] show ?thesis by (simp add: generate_short_code_def)
  next
    case False
    with eq have "r' = generate_short_code rnd' i' 6" by simp
    with False show ?thesis by (simp add: generate_short_code_def)
  qed
qed

lemma stuck_forever:
  assumes "\<And>m. code_exists db (fst (generate_short_code rnd (i + 6 * m) 6))"
  shows "generate_unique rnd db i = None"
proof (cases "generate_unique rnd db i")
  case None
  then show ?thesis .
next
  case (Some r)
  have "generate_unique rnd db i = Some r \<Longrightarrow>
        rnd = rnd \<and> db = db \<and> (\<exists>m. i = i + 6 * m) \<longrightarrow> False"
  proof (rule generate_unique.raw_induct
      [where P = "\<lambda>rnd' db' i' r. rnd' = rnd \<and> db' = db \<and> (\<exists>m. i' = i + 6 * m) \<longrightarrow> False",
        rotated])
    fix gu rnd' db' i' r'
    assume IH: "\<And>rnd'' db'' i'' r. gu rnd'' db'' i'' = Some r \<Longrightarrow>
                  rnd'' = rnd \<and> db'' = db \<and> (\<exists>m. i'' = i + 6 * m) \<longrightarrow> False"
      and eq: "(if code_exists db' (fst (generate_short_code rnd' i' 6))
                then gu rnd' db' (snd (generate_short_code rnd' i' 6))
                else Some (generate_short_code rnd' i' 6)) = Some r'"
    show "rnd' = rnd \<and> db' = db \<and> (\<exists>m. i' = i + 6 * m) \<longrightarrow> False"
    proof
      assume h: "rnd' = rnd \<and> db' = db \<and> (\<exists>m. i' = i + 6 * m)"
      then obtain m where m: "i' = i + 6 * m" by blast
      with h assms have "code_exists db' (fst (generate_short_code rnd' i' 6))" by simp
      with eq have g: "gu rnd' db' (snd (generate_short_code rnd' i' 6)) = Some r'" by simp
      have "snd (generate_short_code rnd' i' 6) = i + 6 * Suc m"
        using m by (simp add: generate_short_code_def)
      then have "\<exists>m'. snd (generate_short_code rnd' i' 6) = i + 6 * m'" by blast
      with IH [OF g] h show False by simp
    qed
  qed
  with Some show ?thesis by simp
qed

lemma generate_unique_after:
  "\<forall>j<k. code_exists db (fst (generate_short_code rnd (i + 6 * j) 6)) \<Longrightarrow>
   generate_unique rnd db i = generate_unique rnd db (i + 6 * k)"
proof (induction k)
  case 0
  show ?case by simp
next
  case (Suc k)
  then have "generate_unique rnd db i = generate_unique rnd db (i + 6 * k)" by simp
  also have "\<dots> = generate_unique rnd db (snd (generate_short_code rnd (i + 6 * k) 6))"
    using Suc.prems by (subst generate_unique.simps) simp
  also have "snd (generate_short_code rnd (i + 6 * k) 6) = i + 6 * Suc k"
    by (simp add: generate_short_code_def)
  finally show ?case .
qed

lemma create_short_url_urls:
  assumes "create_short_url valid_url rnd i db original custom_code ip now = Some (r, db', i')"
  shows "clicks db' = clicks db \<and>
         (urls db' = urls db
          \<or> (\<exists>u. \<not> code_exists db (short_code u) \<and> urls db' = urls db @ [u]))"
proof (cases "\<not> valid_url original \<or> (truthy custom_code \<and> code_exists db (the custom_code))")
  case True
  with assms show ?thesis by (auto simp: create_short_url_def split: if_splits)
next
  case False
  note nf = this
  show ?thesis
  proof (cases "truthy custom_code")
    case True
    with nf assms have "db' = snd (add_url db original (the custom_code) ip now)"
      by (auto simp: create_short_url_def)
    then show ?thesis
      using add_url_urls [of db original "the custom_code" ip now]
        add_url_clicks [of db original "the custom_code" ip now] by auto
  next
    case False
    with nf assms obtain code where g: "generate_unique rnd db i = Some (code, i')"
      and d: "db' = snd (add_url db original code ip now)"
      by (auto simp: create_short_url_def split: option.splits)
    then show ?thesis
      using add_url_urls [of db original code ip now] add_url_clicks [of db original code ip now]
      by auto
  qed
qed

lemma create_short_url_distinct:
  assumes "create_short_url valid_url rnd i db original custom_code ip now = Some (r, db', i')"
    and "distinct (map short_code (urls db))"
  shows "distinct (map short_code (urls db'))"
  using create_short_url_urls [OF assms(1)] assms(2) by (auto simp: code_exists_iff)

lemma create_all_extends:
  "create_all valid_url rnd i db rqs = Some (db', i') \<Longrightarrow>
   distinct (map short_code (urls db)) \<Longrightarrow>
   (\<exists>new. urls db' = urls db @ new) \<and> distinct (map short_code (urls db'))"
proof (induction rqs arbitrary: db i)
  case Nil
  then show ?case by simp
next
  case (Cons rq rqs)
  from Cons.prems(1) obtain r db1 i1 where
    c: "create_short_url valid_url rnd i db (fst rq) (fst (snd rq)) (fst (snd (snd rq)))
          (snd (snd (snd rq))) = Some (r, db1, i1)"
    and rest: "create_all valid_url rnd i1 db1 rqs = Some (db', i')"
    by (auto split: option.splits)
  have d1: "distinct (map short_code (urls db1))"
    using create_short_url_distinct [OF c Cons.prems(2)] .
  have e1: "\<exists>new. urls db1 = urls db @ new"
    using create_short_url_urls [OF c] by auto
  from Cons.IH [OF rest d1] e1 show ?case by auto
qed

text \<open>
  Claim C1. Short codes stay unique: from a store whose codes are pairwise distinct (the
  empty store is one), any sequence of \<open>create\<close> calls, with or without custom codes,
  only appends rows and ends in a store whose codes are pairwise distinct. The rows'
  \<open>is_active\<close> flags play no part, so the code of a deactivated row is never given out
  again.
\<close>

theorem short_codes_stay_unique:
  "distinct (map short_code (urls db)) \<Longrightarrow>
   create_all valid_url rnd i db rqs = Some (db', i') \<Longrightarrow>
   (\<exists>new. urls db' = urls db @ new) \<and> distinct (map short_code (urls db'))"
  by (rule create_all_extends)

theorem short_codes_stay_unique_witness:
  "map_option (\<lambda>res. (map short_code (urls (fst res)), snd res))
     (create_all demo_valid demo_rnd 0 demo_db demo_creates)
     = Some ([''abcdef'', ''github'', ''ghijkl''], 12)
   \<and> distinct (map short_code (urls (fst (the (create_all demo_valid demo_rnd 0 demo_db demo_creates)))))"
proof -
  have ev: "map_option (\<lambda>res. (map short_code (urls (fst res)), snd res))
     (create_all demo_valid demo_rnd 0 demo_db demo_creates)
     = Some ([''abcdef'', ''github'', ''ghijkl''], 12)"
    by code_simp
  then have e: "create_all demo_valid demo_rnd 0 demo_db demo_creates
      = Some (fst (the (create_all demo_valid demo_rnd 0 demo_db demo_creates)),
              snd (the (create_all demo_valid demo_rnd 0 demo_db demo_creates)))"
    by auto
  have d: "distinct (map short_code (urls demo_db))"
    by (simp add: demo_db_def)
  from ev short_codes_stay_unique [OF d e] show ?thesis by blast
qed

text \<open>
  Claim C6, as the code has it. For a valid URL and no custom code, the loop draws
  candidates until one is unused: when the first \<open>k\<close> candidates are taken and the next
  one is free, \<open>create\<close> returns a row with that candidate after \<open>k + 1\<close> generations
  (\<open>6 * (k + 1)\<close> random draws), for every \<open>k\<close>; and when every candidate is taken the
  call does not return. No number of attempts makes it raise.
\<close>

theorem generation_retries_until_unused:
  assumes "valid_url original" and "\<not> truthy custom_code"
  shows "(list_all (\<lambda>j. code_exists db (fst (generate_short_code rnd (i + 6 * j) 6))) [0..<k]
          \<and> \<not> code_exists db (fst (generate_short_code rnd (i + 6 * k) 6)) \<longrightarrow>
          (\<exists>u. create_short_url valid_url rnd i db original custom_code ip now
                  = Some (Inr u, db\<lparr>urls := urls db @ [u]\<rparr>, i + 6 * (k + 1))
               \<and> short_code u = fst (generate_short_code rnd (i + 6 * k) 6)))
       \<and> ((\<forall>m. code_exists db (fst (generate_short_code rnd (i + 6 * m) 6))) \<longrightarrow>
          create_short_url valid_url rnd i db original custom_code ip now = None)"
proof (intro conjI impI)
  assume a: "list_all (\<lambda>j. code_exists db (fst (generate_short_code rnd (i + 6 * j) 6))) [0..<k]
          \<and> \<not> code_exists db (fst (generate_short_code rnd (i + 6 * k) 6))"
  let ?c = "fst (generate_short_code rnd (i + 6 * k) 6)"
  from a have "\<forall>j<k. code_exists db (fst (generate_short_code rnd (i + 6 * j) 6))"
    by (simp add: list_all_iff)
  then have "generate_unique rnd db i = generate_unique rnd db (i + 6 * k)"
    by (rule generate_unique_after)
  also have "\<dots> = Some (generate_short_code rnd (i + 6 * k) 6)"
    using a by (subst generate_unique.simps) simp
  also have "generate_short_code rnd (i + 6 * k) 6 = (?c, i + 6 * (k + 1))"
    by (simp add: generate_short_code_def)
  finally have g: "generate_unique rnd db i = Some (?c, i + 6 * (k + 1))" .
  from a obtain u where u: "add_url db original ?c ip now = (Inr u, db\<lparr>urls := urls db @ [u]\<rparr>)"
    "short_code u = ?c"
    using add_url_fresh [of db ?c original ip now] by blast
  have "create_short_url valid_url rnd i db original custom_code ip now
          = Some (Inr u, db\<lparr>urls := urls db @ [u]\<rparr>, i + 6 * (k + 1))"
    using assms g u(1) by (simp add: create_short_url_def)
  with u(2) show "\<exists>u. create_short_url valid_url rnd i db original custom_code ip now
                  = Some (Inr u, db\<lparr>urls := urls db @ [u]\<rparr>, i + 6 * (k + 1))
               \<and> short_code u = ?c" by blast
next
  assume "\<forall>m. code_exists db (fst (generate_short_code rnd (i + 6 * m) 6))"
  then have "generate_unique rnd db i = None" by (intro stuck_forever) simp
  then show "create_short_url valid_url rnd i db original custom_code ip now = None"
    using assms by (simp add: create_short_url_def)
qed

theorem generation_retries_until_unused_witness:
  "demo_valid ''https://python.org'' \<and> \<not> truthy None
   \<and> code_exists demo_db (fst (generate_short_code demo_rnd 0 6))
   \<and> \<not> code_exists demo_db (fst (generate_short_code demo_rnd 6 6))
   \<and> (\<exists>u. create_short_url demo_valid demo_rnd 0 demo_db ''https://python.org'' None None 3
             = Some (Inr u, demo_db\<lparr>urls := urls demo_db @ [u]\<rparr>, 12)
          \<and> short_code u = ''ghijkl'')"
proof -
  have v: "demo_valid ''https://python.org''" by code_simp
  have t: "\<not> truthy None" by simp
  have c0: "code_exists demo_db (fst (generate_short_code demo_rnd 0 6))" by code_simp
  have c1: "\<not> code_exists demo_db (fst (generate_short_code demo_rnd 6 6))" by code_simp
  have g: "fst (generate_short_code demo_rnd 6 6) = ''ghijkl''" by code_simp
  have l: "list_all (\<lambda>j. code_exists demo_db (fst (generate_short_code demo_rnd (0 + 6 * j) 6))) [0..<1]"
    using c0 by simp
  from generation_retries_until_unused [where valid_url = demo_valid
      and original = "''https://python.org''" and custom_code = None and db = demo_db
      and rnd = demo_rnd and i = 0 and k = 1 and ip = None and now = 3, OF v t] l c1 g
  have "\<exists>u. create_short_url demo_valid demo_rnd 0 demo_db ''https://python.org'' None None 3
             = Some (Inr u, demo_db\<lparr>urls := urls demo_db @ [u]\<rparr>, 12)
          \<and> short_code u = ''ghijkl''" by simp
  with v t c0 c1 show ?thesis by blast
qed

text \<open>
  The claim C6 as stated fails: with a generator that keeps drawing the one code the store
  already holds, \<open>create\<close> neither returns a row nor raises.
\<close>

theorem unbounded_retry_counterexample:
  "create_short_url demo_valid stuck_rnd 0 stuck_db ''https://example.com'' None None 0 = None"
proof -
  have r: "replicate 6 (CHR ''a'') = ''aaaaaa''" by code_simp
  have "fst (generate_short_code stuck_rnd j 6) = replicate 6 (CHR ''a'')" for j
    by (simp add: generate_short_code_def choice_def stuck_rnd_def characters_def
        map_replicate_const)
  with r have "fst (generate_short_code stuck_rnd j 6) = ''aaaaaa''" for j by simp
  then have "code_exists stuck_db (fst (generate_short_code stuck_rnd (0 + 6 * m) 6))" for m
    by (simp add: code_exists_def stuck_db_def demo_url_def)
  then have "generate_unique stuck_rnd stuck_db 0 = None" by (rule stuck_forever)
  moreover have "demo_valid ''https://example.com''" by code_simp
  ultimately show ?thesis by (simp add: create_short_url_def)
qed

section \<open>Counting clicks\<close>

lemma short_code_bump_first: "map short_code (bump_first code us) = map short_code us"
  by (induction us) auto

lemma code_exists_increment:
  "code_exists (increment_click_count db code) c = code_exists db c"
  by (simp add: code_exists_iff increment_click_count_def
      set_map [symmetric] short_code_bump_first del: set_map)

lemma track_click_cases:
  "snd (track_click parse_ua flt db code ip ua ref now) = db
   \<or> snd (track_click parse_ua flt db code ip ua ref now)
       = db\<lparr>clicks := clicks db @ [new_click parse_ua db code ip ua ref now]\<rparr>
   \<or> snd (track_click parse_ua flt db code ip ua ref now)
       = increment_click_count
           (db\<lparr>clicks := clicks db @ [new_click parse_ua db code ip ua ref now]\<rparr>) code"
  by (simp add: track_click_def)

lemma click_code_new_click [simp]:
  "click_code (new_click parse_ua db code ip ua ref now) = code"
  by (simp add: new_click_def)

lemma orphan_free_track_click:
  assumes "orphan_free db" and "code_exists db code"
  shows "orphan_free (snd (track_click parse_ua flt db code ip ua ref now))"
proof -
  have a: "orphan_free (db\<lparr>clicks := clicks db @ [k]\<rparr>)" if "click_code k = code" for k
    using assms that by (simp add: orphan_free_def code_exists_iff)
  have b: "orphan_free (increment_click_count d c)" if "orphan_free d" for d c
  proof -
    have "clicks (increment_click_count d c) = clicks d"
      by (simp add: increment_click_count_def)
    with that show ?thesis
      by (simp add: orphan_free_def code_exists_increment)
  qed
  from track_click_cases [of parse_ua flt db code ip ua ref now] show ?thesis
    using assms(1) a b by (elim disjE) simp_all
qed

lemma orphan_free_redirect:
  assumes "orphan_free db"
  shows "orphan_free (snd (redirect_url parse_ua flt db code request now))"
proof (cases "get_url_by_code db code")
  case None
  with assms show ?thesis by (simp add: snd_redirect_url)
next
  case (Some u)
  then have "code_exists db code"
    using get_url_by_code_Some [OF Some] by (auto simp: code_exists_iff)
  with assms Some show ?thesis
    by (cases "client_host request") (simp_all add: snd_redirect_url orphan_free_track_click)
qed

lemma orphan_free_create:
  assumes "create_short_url valid_url rnd i db original custom_code ip now = Some (r, db', i')"
    and "orphan_free db"
  shows "orphan_free db'"
  using create_short_url_urls [OF assms(1)] assms(2)
  by (auto simp: orphan_free_def code_exists_iff list_all_iff)

lemma short_code_deactivate:
  "map (short_code \<circ> (\<lambda>u. if short_code u = code then u\<lparr>is_active := False\<rparr> else u)) us
     = map short_code us"
  by (induction us) auto

lemma reachable_orphan_free: "reachable db \<Longrightarrow> orphan_free db"
proof (induction rule: reachable.induct)
  case start
  show ?case by (simp add: orphan_free_def empty_db_def)
next
  case (created db valid_url rnd i original custom_code ip now r db' i')
  then show ?case using orphan_free_create by blast
next
  case (redirected db parse_ua flt code request now r' db')
  have "db' = snd (redirect_url parse_ua flt db code request now)"
    using redirected.hyps(2) by simp
  with redirected.IH show ?case by (simp add: orphan_free_redirect)
next
  case (deactivated db code)
  then show ?case
    by (simp add: orphan_free_def code_exists_iff set_map [symmetric] short_code_deactivate
        del: set_map)
qed

lemma create_short_url_Inr:
  assumes "create_short_url valid_url rnd i db original custom_code ip now = Some (Inr u, db1, i1)"
  shows "db1 = db\<lparr>urls := urls db @ [u]\<rparr> \<and> \<not> code_exists db (short_code u)
         \<and> click_count u = 0 \<and> is_active u \<and> original_url u = original"
proof -
  obtain code where a: "add_url db original code ip now = (Inr u, db1)"
    using assms
    by (auto simp: create_short_url_def split: if_splits option.splits)
       (metis prod.collapse)+
  then show ?thesis
    by (auto simp: add_url_def Let_def split: if_splits)
qed


lemma find_append_last:
  "\<forall>x\<in>set pre. \<not> P x \<Longrightarrow> P v \<Longrightarrow> find P (pre @ [v]) = Some v"
  by (induction pre) simp_all

lemma bump_first_append_last:
  "code \<notin> short_code ` set pre \<Longrightarrow> short_code v = code \<Longrightarrow>
   bump_first code (pre @ [v]) = pre @ [v\<lparr>click_count := click_count v + 1\<rparr>]"
  by (induction pre) auto

lemma redirect_recorded_step:
  assumes "urls d = pre @ [v]" and "short_code v = code" and "is_active v"
    and "code \<notin> short_code ` set pre" and "recorded st"
  shows "urls (snd (redirect_url parse_ua (fst st) d code (fst (snd st)) (snd (snd st))))
           = pre @ [v\<lparr>click_count := click_count v + 1\<rparr>]
         \<and> length (filter (\<lambda>c. click_code c = code)
               (clicks (snd (redirect_url parse_ua (fst st) d code (fst (snd st)) (snd (snd st))))))
           = Suc (length (filter (\<lambda>c. click_code c = code) (clicks d)))"
proof -
  have "get_url_by_code d code = Some v"
    unfolding get_url_by_code_def assms(1)
    using assms(2,3,4) by (intro find_append_last) (auto simp: image_iff)
  moreover obtain ip where "client_host (fst (snd st)) = Some ip" and "fst st = NoFault"
    using assms(5) by (auto simp: recorded_def)
  ultimately show ?thesis
    using assms(1,2,4)
    by (simp add: snd_redirect_url track_click_def increment_click_count_def
        bump_first_append_last)
qed

lemma redirect_all_recorded:
  "urls d = pre @ [v] \<Longrightarrow> short_code v = code \<Longrightarrow> is_active v \<Longrightarrow>
   code \<notin> short_code ` set pre \<Longrightarrow> list_all recorded steps \<Longrightarrow>
   urls (redirect_all parse_ua d code steps)
     = pre @ [v\<lparr>click_count := click_count v + int (length steps)\<rparr>]
   \<and> length (filter (\<lambda>c. click_code c = code) (clicks (redirect_all parse_ua d code steps)))
     = length (filter (\<lambda>c. click_code c = code) (clicks d)) + length steps"
proof (induction steps arbitrary: d v)
  case Nil
  then show ?case by simp
next
  case (Cons st steps)
  let ?d' = "snd (redirect_url parse_ua (fst st) d code (fst (snd st)) (snd (snd st)))"
  let ?v' = "v\<lparr>click_count := click_count v + 1\<rparr>"
  have st: "recorded st" and rest: "list_all recorded steps"
    using Cons.prems(5) by simp_all
  have step: "urls ?d' = pre @ [?v']"
    "length (filter (\<lambda>c. click_code c = code) (clicks ?d'))
       = Suc (length (filter (\<lambda>c. click_code c = code) (clicks d)))"
    using redirect_recorded_step [OF Cons.prems(1,2,3,4) st] by simp_all
  have v': "short_code ?v' = code" "is_active ?v'"
    using Cons.prems(2,3) by simp_all
  from Cons.IH [OF step(1) v' Cons.prems(4) rest] step(2) show ?case by simp
qed

text \<open>
  Claim C2. In any state the service reaches, after a \<open>create\<close> that returns the row
  \<open>u\<close>, a run of \<open>N\<close> redirects against its code in each of which the click is recorded
  (the lookup, the click row and the increment all happen) leaves the row found under the
  code with \<open>click_count = N\<close>, and the analytics endpoint answers with
  \<open>total_clicks = N\<close>.
\<close>

theorem clicks_counted:
  assumes "reachable db"
    and "create_short_url valid_url rnd i db original custom_code ip now = Some (Inr u, db1, i1)"
    and "list_all recorded steps"
  shows "get_url_by_code (redirect_all parse_ua db1 (short_code u) steps) (short_code u)
           = Some (u\<lparr>click_count := int (length steps)\<rparr>)
         \<and> get_analytics_endpoint (redirect_all parse_ua db1 (short_code u) steps)
               (short_code u) now'
             = Inr (get_analytics (redirect_all parse_ua db1 (short_code u) steps)
                      (short_code u) now')
         \<and> total_clicks (get_analytics (redirect_all parse_ua db1 (short_code u) steps)
               (short_code u) now') = length steps"
proof -
  let ?code = "short_code u"
  let ?dbN = "redirect_all parse_ua db1 ?code steps"
  from create_short_url_Inr [OF assms(2)]
  have db1: "db1 = db\<lparr>urls := urls db @ [u]\<rparr>" and fresh: "\<not> code_exists db ?code"
    and zero: "click_count u = 0" and act: "is_active u"
    by simp_all
  have notin: "?code \<notin> short_code ` set (urls db)"
    using fresh by (simp add: code_exists_iff)
  have "orphan_free db" using assms(1) by (rule reachable_orphan_free)
  then have none: "filter (\<lambda>c. click_code c = ?code) (clicks db1) = []"
    using fresh db1 by (auto simp: orphan_free_def list_all_iff filter_empty_conv)
  have u1: "urls db1 = urls db @ [u]" using db1 by simp
  from redirect_all_recorded [OF u1 refl act notin assms(3)]
  have urlsN: "urls ?dbN = urls db @ [u\<lparr>click_count := int (length steps)\<rparr>]"
    and cnt: "length (filter (\<lambda>c. click_code c = ?code) (clicks ?dbN)) = length steps"
    using zero none by simp_all
  have look: "get_url_by_code ?dbN ?code = Some (u\<lparr>click_count := int (length steps)\<rparr>)"
    unfolding get_url_by_code_def urlsN
    using notin act by (intro find_append_last) (auto simp: image_iff)
  have total: "total_clicks (get_analytics ?dbN ?code now') = length steps"
    using cnt by (cases "filter (\<lambda>c. click_code c = ?code) (clicks ?dbN) = []")
      (auto simp: get_analytics_def Let_def)
  from look total show ?thesis by (simp add: get_analytics_endpoint_def)
qed

theorem clicks_counted_witness:
  "reachable empty_db
   \<and> create_short_url demo_valid demo_rnd 0 empty_db ''https://example.com'' None None 0
       = Some (Inr (demo_url ''abcdef'' True), \<lparr>urls = [demo_url ''abcdef'' True], clicks = []\<rparr>, 6)
   \<and> list_all recorded demo_steps
   \<and> map_option click_count
        (get_url_by_code
           (redirect_all demo_parse_ua \<lparr>urls = [demo_url ''abcdef'' True], clicks = []\<rparr> ''abcdef''
              demo_steps) ''abcdef'') = Some 3
   \<and> total_clicks
        (get_analytics
           (redirect_all demo_parse_ua \<lparr>urls = [demo_url ''abcdef'' True], clicks = []\<rparr> ''abcdef''
              demo_steps) ''abcdef'' 40) = 3"
proof -
  have c: "create_short_url demo_valid demo_rnd 0 empty_db ''https://example.com'' None None 0
       = Some (Inr (demo_url ''abcdef'' True), \<lparr>urls = [demo_url ''abcdef'' True], clicks = []\<rparr>, 6)"
    by code_simp
  have r: "list_all recorded demo_steps" by code_simp
  have s: "short_code (demo_url ''abcdef'' True) = ''abcdef''" by (simp add: demo_url_def)
  have n: "int (length demo_steps) = 3" by (simp add: demo_steps_def)
  from clicks_counted [OF reachable.start c r, of demo_parse_ua 40]
  show ?thesis using c r reachable.start by (simp add: s n demo_steps_def)
qed

section \<open>The in-memory sliding window\<close>

lemma check_memory_step:
  assumes "memory_store self = Some store"
  shows "memory_store (snd (check_memory_rate_limit self ip t ws m))
           = Some (store(ip \<mapsto> filter (\<lambda>a. ws < a) (stored self ip) @ [t]))"
    and "fst (check_memory_rate_limit self ip t ws m)
           = verdict m (Suc (length (filter (\<lambda>a. ws < a) (stored self ip))))"
    and "redis_available (snd (check_memory_rate_limit self ip t ws m)) = redis_available self"
    and "redis_client (snd (check_memory_rate_limit self ip t ws m)) = redis_client self"
  using assms
  by (simp_all add: check_memory_rate_limit_def stored_def verdict_def Let_def)

lemma check_rate_limit_step:
  assumes "memory_mode self" and "client_host request = Some ip"
  shows "memory_mode (snd (check_rate_limit self reply request t m w))"
    and "stored (snd (check_rate_limit self reply request t m w)) ip
           = filter (\<lambda>a. t - w < a) (stored self ip) @ [t]"
    and "fst (check_rate_limit self reply request t m w)
           = verdict m (Suc (length (filter (\<lambda>a. t - w < a) (stored self ip))))"
proof -
  from assms(1) obtain store where st: "memory_store self = Some store"
    by (auto simp: memory_mode_def)
  have eq: "check_rate_limit self reply request t m w
              = check_memory_rate_limit self ip t (t - w) m"
    using assms by (auto simp: check_rate_limit_def memory_mode_def)
  show "memory_mode (snd (check_rate_limit self reply request t m w))"
    using assms(1) check_memory_step [OF st, of ip t "t - w" m]
    by (simp add: eq memory_mode_def)
  show "stored (snd (check_rate_limit self reply request t m w)) ip
           = filter (\<lambda>a. t - w < a) (stored self ip) @ [t]"
    using check_memory_step(1) [OF st, of ip t "t - w" m]
    by (simp add: eq stored_def)
  show "fst (check_rate_limit self reply request t m w)
           = verdict m (Suc (length (filter (\<lambda>a. t - w < a) (stored self ip))))"
    using check_memory_step(2) [OF st, of ip t "t - w" m] by (simp add: eq)
qed

lemma length_check_all:
  "length (fst (check_all self reply request m w ts)) = length ts"
  by (induction ts arbitrary: self) simp_all

text \<open>Nothing is pruned while all the times lie within one window.\<close>
lemma check_all_within_window:
  assumes "client_host request = Some ip"
  shows "memory_mode self \<Longrightarrow>
         \<forall>a\<in>set (stored self ip) \<union> set ts. \<forall>b\<in>set ts. b - a < w \<Longrightarrow>
         memory_mode (snd (check_all self reply request m w ts))
         \<and> stored (snd (check_all self reply request m w ts)) ip = stored self ip @ ts
         \<and> (\<forall>k<length ts. fst (check_all self reply request m w ts) ! k
               = verdict m (length (stored self ip) + k + 1))"
proof (induction ts arbitrary: self)
  case Nil
  then show ?case by simp
next
  case (Cons t ts)
  let ?s = "snd (check_rate_limit self reply request t m w)"
  note step = check_rate_limit_step [OF Cons.prems(1) assms, of reply t m w]
  have "t - w < a" if "a \<in> set (stored self ip)" for a
  proof -
    from Cons.prems(2) that have "t - a < w" by simp
    then show ?thesis by linarith
  qed
  then have keep: "filter (\<lambda>a. t - w < a) (stored self ip) = stored self ip"
    by (simp add: filter_id_conv)
  have st: "stored ?s ip = stored self ip @ [t]" using step(2) keep by simp
  have "\<forall>a\<in>set (stored ?s ip) \<union> set ts. \<forall>b\<in>set ts. b - a < w"
    using Cons.prems(2) st by auto
  from Cons.IH [OF step(1) this]
  have IH: "memory_mode (snd (check_all ?s reply request m w ts))"
    "stored (snd (check_all ?s reply request m w ts)) ip = stored ?s ip @ ts"
    "\<forall>k<length ts. fst (check_all ?s reply request m w ts) ! k
               = verdict m (length (stored ?s ip) + k + 1)"
    by simp_all
  have "fst (check_all self reply request m w (t # ts)) ! k
               = verdict m (length (stored self ip) + k + 1)" if "k < length (t # ts)" for k
  proof (cases k)
    case 0
    then show ?thesis using step(3) keep by simp
  next
    case (Suc k')
    with that IH(3) st show ?thesis by simp
  qed
  with IH(1,2) st show ?case by simp
qed

lemma check_all_append:
  "check_all self reply request m w (xs @ ys)
     = (fst (check_all self reply request m w xs)
          @ fst (check_all (snd (check_all self reply request m w xs)) reply request m w ys),
        snd (check_all (snd (check_all self reply request m w xs)) reply request m w ys))"
  by (induction xs arbitrary: self) simp_all


lemma init_memory_mode: "memory_mode (init redis_url True)" "stored (init redis_url True) ip = []"
  by (simp_all add: memory_mode_def stored_def init_def)

lemma check_all_sorted:
  assumes "client_host request = Some ip"
  shows "memory_mode self \<Longrightarrow> sorted (hs @ ts) \<Longrightarrow>
         (\<And>t. \<forall>a\<in>set hs. a \<le> t \<Longrightarrow>
               filter (\<lambda>a. t - w < a) (stored self ip) = filter (\<lambda>a. t - w < a) hs) \<Longrightarrow>
         k < length ts \<Longrightarrow>
         fst (check_all self reply request m w ts) ! k
           = verdict m (Suc (length (filter (\<lambda>a. ts ! k - w < a) (hs @ take k ts))))"
proof (induction ts arbitrary: self hs k)
  case Nil
  then show ?case by simp
next
  case (Cons t ts)
  let ?s = "snd (check_rate_limit self reply request t m w)"
  note step = check_rate_limit_step [OF Cons.prems(1) assms, of reply t m w]
  have ge: "\<forall>a\<in>set hs. a \<le> t"
    using Cons.prems(2) by (simp add: sorted_append)
  show ?case
  proof (cases k)
    case 0
    then show ?thesis using step(3) Cons.prems(3) [OF ge] by simp
  next
    case (Suc k')
    have srt: "sorted ((hs @ [t]) @ ts)" using Cons.prems(2) by simp
    have inv: "filter (\<lambda>a. t' - w < a) (stored ?s ip) = filter (\<lambda>a. t' - w < a) (hs @ [t])"
      if "\<forall>a\<in>set (hs @ [t]). a \<le> t'" for t'
    proof -
      from that have tt: "t \<le> t'" and hh: "\<forall>a\<in>set hs. a \<le> t'" by simp_all
      have "filter (\<lambda>a. t' - w < a) (filter (\<lambda>a. t - w < a) (stored self ip))
              = filter (\<lambda>a. t' - w < a) (stored self ip)"
        using tt by (auto intro!: filter_cong)
      also have "\<dots> = filter (\<lambda>a. t' - w < a) hs"
        by (rule Cons.prems(3) [OF hh])
      finally show ?thesis by (simp add: step(2))
    qed
    have k': "k' < length ts" using Cons.prems(4) Suc by simp
    from Cons.IH [OF step(1) srt inv k']
    show ?thesis using Suc by simp
  qed
qed

text \<open>
  Claim C5, for a limit of at least one request. From the empty in-memory state, when
  \<open>max_requests\<close> checks of one client and the next one all lie within one window (any two
  of their times differ by less than \<open>window_seconds\<close>), the first \<open>max_requests\<close> are
  admitted and the next one is rejected with the 429; and a check made once a full window
  has passed since all of them is admitted.
\<close>

theorem window_admits_max_requests:
  assumes "client_host request = Some ip"
    and "int (length ts) = max_requests" and "1 \<le> max_requests"
    and "\<forall>a\<in>set (ts @ [t_next]). \<forall>b\<in>set (ts @ [t_next]). b - a < window_seconds"
    and "\<forall>a\<in>set (ts @ [t_next]). window_seconds \<le> t_after - a"
  shows "fst (check_all (init redis_url True) reply request max_requests window_seconds
                (ts @ [t_next, t_after]))
           = replicate (length ts) (Inr ()) @ [Inl (too_many_per_minute max_requests), Inr ()]"
proof -
  let ?self = "init redis_url True"
  let ?run = "check_all ?self reply request max_requests window_seconds (ts @ [t_next])"
  have "\<forall>a\<in>set (stored ?self ip) \<union> set (ts @ [t_next]). \<forall>b\<in>set (ts @ [t_next]).
          b - a < window_seconds"
    using assms(4) by (simp add: init_memory_mode)
  from check_all_within_window [OF assms(1) init_memory_mode(1) this]
  have mode: "memory_mode (snd ?run)"
    and st: "stored (snd ?run) ip = ts @ [t_next]"
    and res: "\<forall>k<length (ts @ [t_next]). fst ?run ! k = verdict max_requests (k + 1)"
    by (simp_all add: init_memory_mode)
  have first: "fst ?run = replicate (length ts) (Inr ()) @ [Inl (too_many_per_minute max_requests)]"
  proof (rule nth_equalityI)
    show "length (fst ?run)
            = length (replicate (length ts) (Inr ()) @ [Inl (too_many_per_minute max_requests)])"
      by (simp add: length_check_all)
  next
    fix k
    assume "k < length (fst ?run)"
    then have k: "k < length (ts @ [t_next])" by (simp add: length_check_all)
    with res have v: "fst ?run ! k = verdict max_requests (k + 1)" by blast
    show "fst ?run ! k
            = (replicate (length ts) (Inr ()) @ [Inl (too_many_per_minute max_requests)]) ! k"
    proof (cases "k < length ts")
      case True
      then show ?thesis using v assms(2) by (simp add: verdict_def nth_append)
    next
      case False
      with k have "k = length ts" by simp
      then show ?thesis using v assms(2) by (simp add: verdict_def nth_append)
    qed
  qed
  have "\<not> t_after - window_seconds < a" if "a \<in> set (ts @ [t_next])" for a
  proof -
    from assms(5) that have "window_seconds \<le> t_after - a" by blast
    then show ?thesis by linarith
  qed
  then have gone: "filter (\<lambda>a. t_after - window_seconds < a) (stored (snd ?run) ip) = []"
    unfolding st by (simp only: filter_empty_conv) blast
  have last: "fst (check_rate_limit (snd ?run) reply request t_after max_requests window_seconds)
                = Inr ()"
    using check_rate_limit_step(3) [OF mode assms(1), of reply t_after max_requests window_seconds]
      gone assms(3) by (simp add: verdict_def)
  have "ts @ [t_next, t_after] = (ts @ [t_next]) @ [t_after]" by simp
  then have "fst (check_all ?self reply request max_requests window_seconds (ts @ [t_next, t_after]))
               = fst ?run @ [fst (check_rate_limit (snd ?run) reply request t_after max_requests
                                    window_seconds)]"
    by (simp only: check_all_append) simp
  with first last show ?thesis by simp
qed

theorem window_admits_max_requests_witness:
  "client_host demo_request = Some ''10.0.0.1''
   \<and> fst (check_all (init ''redis://localhost:6379'' True) (Results 0) demo_request 3 60
            [100, 110, 159, 159, 219])
       = [Inr (), Inr (), Inr (), Inl (too_many_per_minute 3), Inr ()]"
proof -
  have c: "client_host demo_request = Some ''10.0.0.1''" by (simp add: demo_request_def)
  have l: "int (length [100, 110, 159 :: int]) = 3" by simp
  have w: "\<forall>a\<in>set ([100, 110, 159] @ [159 :: int]). \<forall>b\<in>set ([100, 110, 159] @ [159]). b - a < 60"
    by simp
  have e: "\<forall>a\<in>set ([100, 110, 159] @ [159 :: int]). 60 \<le> 219 - a" by simp
  from window_admits_max_requests [OF c l _ w e, of "''redis://localhost:6379''" "Results 0"]
  show ?thesis using c by simp
qed

text \<open>
  The claim C5 as stated fails for \<open>max_requests = 0\<close>: no check is admitted, also after a
  full window without requests.
\<close>

theorem zero_limit_counterexample:
  "fst (check_all (init ''redis://localhost:6379'' True) (Results 0) demo_request 0 60 [0, 60])
     = [Inl (too_many_per_minute 0), Inl (too_many_per_minute 0)]"
  by (simp add: check_rate_limit_def init_def demo_request_def check_memory_rate_limit_def)

text \<open>
  Claim C9, as the code has it. Every in-memory check stores the client's list with the
  expired times pruned and the current time appended, whether it then returns or raises the
  429; the outcome depends on the length of that list. Hence, from the empty state and with
  non-decreasing request times, a request is rejected exactly when it and the client's
  earlier requests whose times lie after \<open>current_time - window_seconds\<close>, admitted or
  rejected alike, number more than \<open>max_requests\<close>.
\<close>

theorem rejected_requests_count:
  "(memory_store self = Some store \<longrightarrow>
      memory_store (snd (check_memory_rate_limit self ip t window_start max_requests))
        = Some (store(ip \<mapsto> filter (\<lambda>a. window_start < a) (stored self ip) @ [t]))
      \<and> fst (check_memory_rate_limit self ip t window_start max_requests)
        = verdict max_requests (Suc (length (filter (\<lambda>a. window_start < a) (stored self ip)))))
   \<and> (client_host request = Some ip \<and> sorted ts \<and> k < length ts \<longrightarrow>
      fst (check_all (init redis_url True) reply request max_requests window_seconds ts) ! k
        = verdict max_requests
            (Suc (length (filter (\<lambda>a. ts ! k - window_seconds < a) (take k ts)))))"
proof (intro conjI impI)
  assume st: "memory_store self = Some store"
  show "memory_store (snd (check_memory_rate_limit self ip t window_start max_requests))
        = Some (store(ip \<mapsto> filter (\<lambda>a. window_start < a) (stored self ip) @ [t]))"
    by (rule check_memory_step(1) [OF st])
  show "fst (check_memory_rate_limit self ip t window_start max_requests)
        = verdict max_requests (Suc (length (filter (\<lambda>a. window_start < a) (stored self ip))))"
    by (rule check_memory_step(2) [OF st])
next
  assume a: "client_host request = Some ip \<and> sorted ts \<and> k < length ts"
  then have c: "client_host request = Some ip" and s: "sorted ([] @ ts)" and k: "k < length ts"
    by simp_all
  have inv: "filter (\<lambda>a. t - window_seconds < a) (stored (init redis_url True) ip)
               = filter (\<lambda>a. t - window_seconds < a) []" for t
    by (simp add: init_memory_mode)
  from check_all_sorted [OF c init_memory_mode(1) s inv k]
  show "fst (check_all (init redis_url True) reply request max_requests window_seconds ts) ! k
        = verdict max_requests
            (Suc (length (filter (\<lambda>a. ts ! k - window_seconds < a) (take k ts))))"
    by simp
qed

theorem rejected_requests_count_witness:
  "check_memory_rate_limit
       \<lparr>redis_client = None, redis_available = False,
        memory_store = Some [''10.0.0.1'' \<mapsto> [5, 20, 30]]\<rparr> ''10.0.0.1'' 70 10 2
     = (Inl (too_many_per_minute 2),
        \<lparr>redis_client = None, redis_available = False,
         memory_store = Some [''10.0.0.1'' \<mapsto> [20, 30, 70]]\<rparr>)
   \<and> fst (check_all (init ''redis://localhost:6379'' True) (Results 0) demo_request 1 60
            [0, 10, 65, 71]) ! 3 = Inl (too_many_per_minute 1)"
proof -
  let ?self = "\<lparr>redis_client = None, redis_available = False,
        memory_store = Some [''10.0.0.1'' \<mapsto> [5, 20, 30 :: int]]\<rparr>"
  have m: "memory_store ?self = Some [''10.0.0.1'' \<mapsto> [5, 20, 30]]" by simp
  have c: "client_host demo_request = Some ''10.0.0.1'' \<and> sorted [0, 10, 65, 71 :: int]
             \<and> 3 < length [0, 10, 65, 71 :: int]"
    by (simp add: demo_request_def)
  from rejected_requests_count [where self = ?self and store = "[''10.0.0.1'' \<mapsto> [5, 20, 30]]"
      and ip = "''10.0.0.1''" and t = 70 and window_start = 10 and max_requests = 2] m
    rejected_requests_count [where request = demo_request and ip = "''10.0.0.1''"
      and ts = "[0, 10, 65, 71]" and k = 3 and redis_url = "''redis://localhost:6379''"
      and reply = "Results 0" and max_requests = 1 and window_seconds = 60] c
  show ?thesis
    by (simp add: stored_def verdict_def check_memory_rate_limit_def)
qed

text \<open>
  The last part of C9 as stated fails: with a limit of 2 per 60 seconds, a client that
  sends at 0, 1, 2, 50 and 100 is rejected at 2 and at 50 and admitted at 100, although it
  never paused for a full window.
\<close>

theorem full_window_pause_counterexample:
  "fst (check_all (init ''redis://localhost:6379'' True) (Results 0) demo_request 2 60
          [0, 1, 2, 50, 100])
     = [Inr (), Inr (), Inl (too_many_per_minute 2), Inl (too_many_per_minute 2), Inr ()]"
  by (simp add: check_rate_limit_def init_def demo_request_def check_memory_rate_limit_def)

section \<open>The top-five lists\<close>

lemma firsts_snoc:
  "firsts (xs @ [x]) = (if x \<in> set xs then firsts xs else firsts xs @ [x])"
  by (simp add: firsts_def)

lemma set_firsts [simp]: "set (firsts xs) = set xs"
  by (simp add: firsts_def)

lemma distinct_firsts [simp]: "distinct (firsts xs)"
  by (simp add: firsts_def)

lemma length_firsts: "length (firsts xs) = length (remdups xs)"
  by (simp add: firsts_def length_remdups_card_conv)

lemma counter_add_map:
  "distinct ks \<Longrightarrow>
   counter_add x (map (\<lambda>k. (k, g k)) ks)
     = (if x \<in> set ks then map (\<lambda>k. (k, if k = x then Suc (g k) else g k)) ks
        else map (\<lambda>k. (k, g k)) ks @ [(x, 1)])"
  by (induction ks) auto

lemma Counter_snoc: "Counter (xs @ [x]) = counter_add x (Counter xs)"
  by (simp add: Counter_def)

lemma Counter_eq: "Counter xs = map (\<lambda>k. (k, count_list xs k)) (firsts xs)"
proof (induction xs rule: rev_induct)
  case Nil
  show ?case by (simp add: Counter_def firsts_def)
next
  case (snoc x xs)
  show ?case
  proof (cases "x \<in> set xs")
    case True
    then show ?thesis
      by (simp add: Counter_snoc snoc.IH counter_add_map firsts_snoc)
  next
    case False
    then have "count_list xs x = 0" by (simp add: count_list_0_iff)
    with False show ?thesis
      by (auto simp: Counter_snoc snoc.IH counter_add_map firsts_snoc)
  qed
qed

lemma first_index_less: "a \<in> set xs \<Longrightarrow> first_index xs a < length xs"
  unfolding first_index_def by (induction xs) auto

lemma first_index_snoc:
  "first_index (xs @ [x]) a
     = (if a \<in> set xs then first_index xs a else if a = x then length xs else Suc (length xs))"
  unfolding first_index_def by (induction xs) auto

lemma firsts_sorted: "sorted_wrt (\<lambda>a b. first_index xs a < first_index xs b) (firsts xs)"
proof (induction xs rule: rev_induct)
  case Nil
  show ?case by (simp add: firsts_def)
next
  case (snoc x xs)
  have old: "sorted_wrt (\<lambda>a b. first_index (xs @ [x]) a < first_index (xs @ [x]) b) (firsts xs)"
    by (rule sorted_wrt_mono_rel [OF _ snoc.IH]) (simp add: first_index_snoc)
  show ?case
  proof (cases "x \<in> set xs")
    case True
    with old show ?thesis by (simp add: firsts_snoc)
  next
    case False
    with old show ?thesis
      by (auto simp: firsts_snoc sorted_wrt_append first_index_snoc first_index_less)
  qed
qed


lemma insort_key_ranked:
  fixes f :: "'a \<Rightarrow> int"
  assumes "sorted_wrt (\<lambda>x y. f x < f y \<or> (f x = f y \<and> R x y)) ys"
    and "\<forall>y\<in>set ys. R a y"
  shows "sorted_wrt (\<lambda>x y. f x < f y \<or> (f x = f y \<and> R x y)) (insort_key f a ys)"
  using assms
proof (induction ys)
  case Nil
  show ?case by simp
next
  case (Cons y ys)
  show ?case
  proof (cases "f a \<le> f y")
    case True
    have "f a < f z \<or> (f a = f z \<and> R a z)" if "z \<in> set (y # ys)" for z
    proof -
      have "f y \<le> f z" using Cons.prems(1) that by auto
      with True have "f a \<le> f z" by simp
      moreover have "R a z" using Cons.prems(2) that by blast
      ultimately show ?thesis by (simp add: order_le_less)
    qed
    with True Cons.prems(1) show ?thesis by simp
  next
    case False
    have "sorted_wrt (\<lambda>x y. f x < f y \<or> (f x = f y \<and> R x y)) (insort_key f a ys)"
      using Cons.IH Cons.prems by simp
    with False Cons.prems(1) show ?thesis by (auto simp: set_insort_key)
  qed
qed

lemma sort_key_ranked:
  fixes f :: "'a \<Rightarrow> int"
  shows "sorted_wrt R c \<Longrightarrow>
         sorted_wrt (\<lambda>x y. f x < f y \<or> (f x = f y \<and> R x y)) (sort_key f c)"
proof (induction c)
  case Nil
  show ?case by simp
next
  case (Cons a c)
  then have "sorted_wrt (\<lambda>x y. f x < f y \<or> (f x = f y \<and> R x y)) (sort_key f c)"
    and "\<forall>y\<in>set (sort_key f c). R a y"
    by simp_all
  then show ?case by (simp add: insort_key_ranked)
qed

lemma Counter_sorted_ranked:
  "sorted_wrt (\<lambda>kv kv'. ranks_before xs (fst kv) (fst kv'))
     (sort_key (\<lambda>kv. - int (snd kv)) (Counter xs))"
proof -
  let ?R = "\<lambda>kv kv'. first_index xs (fst kv) < first_index xs (fst kv')"
  let ?f = "\<lambda>kv :: 'a \<times> nat. - int (snd kv)"
  have "sorted_wrt ?R (Counter xs)"
    using firsts_sorted [of xs] by (simp add: Counter_eq sorted_wrt_map)
  then have s: "sorted_wrt (\<lambda>x y. ?f x < ?f y \<or> (?f x = ?f y \<and> ?R x y))
                  (sort_key ?f (Counter xs))"
    by (rule sort_key_ranked)
  show ?thesis
  proof (rule sorted_wrt_mono_rel [OF _ s])
    fix x y
    assume "x \<in> set (sort_key ?f (Counter xs))" and "y \<in> set (sort_key ?f (Counter xs))"
      and q: "?f x < ?f y \<or> (?f x = ?f y \<and> ?R x y)"
    then have "snd x = count_list xs (fst x)" and "snd y = count_list xs (fst y)"
      by (auto simp: Counter_eq)
    with q show "ranks_before xs (fst x) (fst y)"
      by (auto simp: ranks_before_def)
  qed
qed

lemma most_common_is_top: "is_top n xs (most_common n (Counter xs))"
proof -
  let ?s = "sort_key (\<lambda>kv. - int (snd kv)) (Counter xs)"
  let ?Q = "\<lambda>kv kv'. ranks_before xs (fst kv) (fst kv')"
  have srt: "sorted_wrt ?Q ?s" by (rule Counter_sorted_ranked)
  have set_s: "set ?s = (\<lambda>k. (k, count_list xs k)) ` set xs"
    by (simp add: Counter_eq)
  have 1: "length (take n ?s) = min n (length (remdups xs))"
    by (simp add: Counter_eq length_firsts min.commute)
  have 2: "list_all (\<lambda>kv. fst kv \<in> set xs \<and> snd kv = count_list xs (fst kv)) (take n ?s)"
  proof -
    have "fst kv \<in> set xs \<and> snd kv = count_list xs (fst kv)" if "kv \<in> set (take n ?s)" for kv
    proof -
      from that have "kv \<in> set ?s" by (rule in_set_takeD)
      with set_s have "kv \<in> (\<lambda>k. (k, count_list xs k)) ` set xs" by simp
      then show ?thesis by auto
    qed
    then show ?thesis unfolding list_all_iff by blast
  qed
  have 3: "sorted_wrt ?Q (take n ?s)" using srt by (rule sorted_wrt_take)
  have 4: "list_all (\<lambda>x. x \<in> fst ` set (take n ?s)
                        \<or> list_all (\<lambda>kv. ranks_before xs (fst kv) x) (take n ?s)) xs"
  proof -
    have "x \<in> fst ` set (take n ?s) \<or> (\<forall>kv\<in>set (take n ?s). ranks_before xs (fst kv) x)"
      if "x \<in> set xs" for x
    proof (cases "(x, count_list xs x) \<in> set (take n ?s)")
      case True
      then have "fst (x, count_list xs x) \<in> fst ` set (take n ?s)" by (rule imageI)
      then show ?thesis by simp
    next
      case False
      have "(x, count_list xs x) \<in> set ?s"
        using that set_s by simp
      moreover have "set ?s = set (take n ?s) \<union> set (drop n ?s)"
        by (simp only: set_append [symmetric] append_take_drop_id)
      ultimately have d: "(x, count_list xs x) \<in> set (drop n ?s)"
        using False by blast
      have "sorted_wrt ?Q (take n ?s @ drop n ?s)" using srt by simp
      then have "\<forall>a\<in>set (take n ?s). \<forall>b\<in>set (drop n ?s). ?Q a b"
        by (simp only: sorted_wrt_append) blast
      with d have "\<forall>a\<in>set (take n ?s). ranks_before xs (fst a) (fst (x, count_list xs x))"
        by blast
      then show ?thesis by simp
    qed
    then show ?thesis unfolding list_all_iff by blast
  qed
  from 1 2 3 4 show ?thesis by (simp add: is_top_def most_common_def)
qed

lemma column_set: "set (column f cs) = {s. s \<noteq> [] \<and> Some s \<in> f ` set cs}"
proof (rule set_eqI)
  fix s
  have t: "truthy v = (\<exists>s. v = Some s \<and> s \<noteq> [])" for v :: "string option"
    by (cases v) simp_all
  show "s \<in> set (column f cs) \<longleftrightarrow> s \<in> {s. s \<noteq> [] \<and> Some s \<in> f ` set cs}"
  proof
    assume "s \<in> set (column f cs)"
    then obtain c where c: "c \<in> set cs" "truthy (f c)" "s = the (f c)"
      by (auto simp: column_def)
    from c(2) obtain s' where "f c = Some s'" "s' \<noteq> []" using t by blast
    with c(1,3) have "s \<noteq> []" and "Some s = f c" by simp_all
    with c(1) show "s \<in> {s. s \<noteq> [] \<and> Some s \<in> f ` set cs}" by blast
  next
    assume "s \<in> {s. s \<noteq> [] \<and> Some s \<in> f ` set cs}"
    then obtain c where c: "c \<in> set cs" "f c = Some s" "s \<noteq> []" by auto
    then have "truthy (f c)" and "the (f c) = s" by simp_all
    with c(1) show "s \<in> set (column f cs)"
      unfolding column_def by (metis (mono_tags, lifting) image_eqI mem_Collect_eq set_filter set_map)
  qed
qed

text \<open>
  Claim C7. For the click events of a code, each of \<open>top_countries\<close>, \<open>top_referrers\<close>
  and \<open>browser_stats\<close> (the spec's top browsers) is the top five of the non-empty values of
  its column: at most five entries, as many as there are distinct values up to five; each
  entry a value with the number of events that have it; the entries in order of descending
  frequency, values of equal frequency in the order in which they are first met; and every
  value left out less frequent than every entry, or as frequent and first met later.
\<close>

theorem top_lists_are_top_five:
  "is_top 5 (column country (filter (\<lambda>c. click_code c = code) (clicks db)))
     (top_countries (get_analytics db code now))
   \<and> is_top 5 (column referer (filter (\<lambda>c. click_code c = code) (clicks db)))
       (top_referrers (get_analytics db code now))
   \<and> is_top 5 (column user_agent (filter (\<lambda>c. click_code c = code) (clicks db)))
       (browser_stats (get_analytics db code now))"
proof (cases "filter (\<lambda>c. click_code c = code) (clicks db) = []")
  case True
  then show ?thesis
    by (simp add: get_analytics_def is_top_def column_def)
next
  case False
  then show ?thesis
    by (simp add: get_analytics_def Let_def most_common_is_top)
qed

theorem top_lists_are_top_five_witness:
  "top_countries (get_analytics demo_clicks_db ''abc'' 0)
     = [(''DE'', 2), (''FR'', 2), (''US'', 1), (''IT'', 1), (''ES'', 1)]
   \<and> column country (filter (\<lambda>c. click_code c = ''abc'') (clicks demo_clicks_db))
     = [''DE'', ''FR'', ''FR'', ''US'', ''DE'', ''IT'', ''ES'', ''PL'']
   \<and> is_top 5 [''DE'', ''FR'', ''FR'', ''US'', ''DE'', ''IT'', ''ES'', ''PL'']
       [(''DE'', 2), (''FR'', 2), (''US'', 1), (''IT'', 1), (''ES'', 1)]"
proof -
  have t: "top_countries (get_analytics demo_clicks_db ''abc'' 0)
     = [(''DE'', 2), (''FR'', 2), (''US'', 1), (''IT'', 1), (''ES'', 1)]"
    by code_simp
  have c: "column country (filter (\<lambda>c. click_code c = ''abc'') (clicks demo_clicks_db))
     = [''DE'', ''FR'', ''FR'', ''US'', ''DE'', ''IT'', ''ES'', ''PL'']"
    by code_simp
  from top_lists_are_top_five [of "''abc''" demo_clicks_db 0]
  have "is_top 5 (column country (filter (\<lambda>c. click_code c = ''abc'') (clicks demo_clicks_db)))
     (top_countries (get_analytics demo_clicks_db ''abc'' 0))" by (rule conjunct1)
  then have "is_top 5 [''DE'', ''FR'', ''FR'', ''US'', ''DE'', ''IT'', ''ES'', ''PL'']
       [(''DE'', 2), (''FR'', 2), (''US'', 1), (''IT'', 1), (''ES'', 1)]"
    by (simp only: t c)
  with t c show ?thesis by blast
qed

end
